theory Spec2Isabelle
  imports Complex_Main "HOL-Library.Log_Nat"
begin

section \<open>Python values\<close>

subsection \<open>Strings\<close>

text \<open>
  A Python \<open>str\<close> is a sequence of Unicode code points, so it is modelled as a list of
  natural numbers. ASCII literals of the source are written \<open>ascii ''...''\<close>; code points
  beyond ASCII are written as numbers.
\<close>

type_synonym str = "nat list"

definition ascii :: "string \<Rightarrow> str" where
  "ascii = map of_char"

text \<open>\<open>str.isspace\<close> of one code point; it is also the class \<open>\s\<close> of the \<open>re\<close> module.\<close>

definition isspace :: "nat \<Rightarrow> bool" where
  "isspace c \<longleftrightarrow>
     (9 \<le> c \<and> c \<le> 13) \<or> (28 \<le> c \<and> c \<le> 32) \<or> c = 133 \<or> c = 160 \<or> c = 5760 \<or>
     (8192 \<le> c \<and> c \<le> 8202) \<or> c = 8232 \<or> c = 8233 \<or> c = 8239 \<or> c = 8287 \<or> c = 12288"

text \<open>
  The decimal digits (Unicode category \<open>Nd\<close>) come in 66 runs of ten consecutive code
  points, from the digit zero to the digit nine; \<open>digit_starts\<close> lists the code point of
  each zero (Unicode 14.0, the table of Python 3.11). The class \<open>\d\<close> of \<open>re\<close> is this
  category, and \<open>float\<close> reads each such character as the digit it denotes.
\<close>

definition digit_starts :: "nat list" where
  "digit_starts =
    [48, 1632, 1776, 1984, 2406, 2534, 2662, 2790, 2918, 3046, 3174, 3302, 3430, 3558, 3664,
     3792, 3872, 4160, 4240, 6112, 6160, 6470, 6608, 6784, 6800, 6992, 7088, 7232, 7248, 42528,
     43216, 43264, 43472, 43504, 43600, 44016, 65296, 66720, 68912, 69734, 69872, 69942, 70096,
     70384, 70736, 70864, 71248, 71360, 71472, 71904, 72016, 72784, 73040, 73120, 92768, 92864,
     93008, 120782, 120792, 120802, 120812, 120822, 123200, 123632, 125264, 130032]"

definition isdigit :: "nat \<Rightarrow> bool" where
  "isdigit c \<longleftrightarrow> list_ex (\<lambda>z. z \<le> c \<and> c < z + 10) digit_starts"

definition digit_of :: "nat \<Rightarrow> nat" where
  "digit_of c = (case find (\<lambda>z. z \<le> c \<and> c < z + 10) digit_starts of Some z \<Rightarrow> c - z | None \<Rightarrow> 0)"

subsection \<open>Floats\<close>

text \<open>
  A Python \<open>float\<close> is an IEEE 754 binary64 number: a finite value, an infinity or NaN.
  Finite values are carried as real numbers; every arithmetic operation computes the exact
  real result and rounds it to the nearest double, ties to even, as the hardware does.
  The sign of a zero is not modelled (no comparison of the source can observe it).
\<close>

datatype pyfloat = Fin real | PInf | NInf | NaN

text \<open>Rounding of a real to the nearest integer, ties to the even one.\<close>

definition rhe :: "real \<Rightarrow> int" where
  "rhe x = (let f = \<lfloor>x\<rfloor>; d = x - of_int f in
            if d < 1 / 2 then f
            else if 1 / 2 < d then f + 1
            else if even f then f else f + 1)"

text \<open>The binary exponent of a non-zero real: \<open>2 ^ expo x \<le> \<bar>x\<bar> < 2 ^ (expo x + 1)\<close>.\<close>

definition expo :: "real \<Rightarrow> int" where
  "expo x = (if 1 \<le> \<bar>x\<bar> then int (floorlog 2 (nat \<lfloor>\<bar>x\<bar>\<rfloor>)) - 1
             else - int (floorlog 2 (nat (\<lceil>1 / \<bar>x\<bar>\<rceil> - 1))))"

text \<open>
  The spacing of the doubles around \<open>x\<close>: 53 significant bits, and the fixed spacing
  \<open>2 ^ - 1074\<close> of the subnormal numbers below \<open>2 ^ - 1022\<close>.
\<close>

definition ulp :: "real \<Rightarrow> real" where
  "ulp x = 2 powi (max (expo x) (- 1022) - 52)"

definition rnd :: "real \<Rightarrow> real" where
  "rnd x = (if x = 0 then 0 else of_int (rhe (x / ulp x)) * ulp x)"

text \<open>The result of an operation whose exact value is \<open>x\<close>; it overflows to an infinity.\<close>

definition to_double :: "real \<Rightarrow> pyfloat" where
  "to_double x = (let r = rnd x in
     if 2 ^ 1024 \<le> r then PInf else if r \<le> - (2 ^ 1024) then NInf else Fin r)"

text \<open>The reals that are finite doubles.\<close>

definition is_double :: "real \<Rightarrow> bool" where
  "is_double x \<longleftrightarrow> rnd x = x \<and> \<bar>x\<bar> < 2 ^ 1024"

text \<open>Arithmetic and comparisons of Python floats.\<close>

fun fneg :: "pyfloat \<Rightarrow> pyfloat" where
  "fneg (Fin x) = Fin (- x)"
| "fneg PInf = NInf"
| "fneg NInf = PInf"
| "fneg NaN = NaN"

fun fadd :: "pyfloat \<Rightarrow> pyfloat \<Rightarrow> pyfloat" where
  "fadd (Fin x) (Fin y) = to_double (x + y)"
| "fadd NaN b = NaN"
| "fadd a NaN = NaN"
| "fadd PInf NInf = NaN"
| "fadd NInf PInf = NaN"
| "fadd PInf b = PInf"
| "fadd a PInf = PInf"
| "fadd NInf b = NInf"
| "fadd a NInf = NInf"

definition fsub :: "pyfloat \<Rightarrow> pyfloat \<Rightarrow> pyfloat" where
  "fsub a b = fadd a (fneg b)"

fun fsign :: "pyfloat \<Rightarrow> real" where
  "fsign (Fin x) = sgn x"
| "fsign PInf = 1"
| "fsign NInf = - 1"
| "fsign NaN = 0"

definition fmul :: "pyfloat \<Rightarrow> pyfloat \<Rightarrow> pyfloat" where
  "fmul a b =
     (case (a, b) of
        (Fin x, Fin y) \<Rightarrow> to_double (x * y)
      | (NaN, _) \<Rightarrow> NaN
      | (_, NaN) \<Rightarrow> NaN
      | _ \<Rightarrow> (let s = fsign a * fsign b in
                if 0 < s then PInf else if s < 0 then NInf else NaN))"

fun flt :: "pyfloat \<Rightarrow> pyfloat \<Rightarrow> bool" where
  "flt (Fin x) (Fin y) \<longleftrightarrow> x < y"
| "flt NaN b \<longleftrightarrow> False"
| "flt a NaN \<longleftrightarrow> False"
| "flt PInf b \<longleftrightarrow> False"
| "flt a NInf \<longleftrightarrow> False"
| "flt a PInf \<longleftrightarrow> True"
| "flt NInf b \<longleftrightarrow> True"

fun fle :: "pyfloat \<Rightarrow> pyfloat \<Rightarrow> bool" where
  "fle (Fin x) (Fin y) \<longleftrightarrow> x \<le> y"
| "fle NaN b \<longleftrightarrow> False"
| "fle a NaN \<longleftrightarrow> False"
| "fle a PInf \<longleftrightarrow> True"
| "fle NInf b \<longleftrightarrow> True"
| "fle PInf b \<longleftrightarrow> False"
| "fle a NInf \<longleftrightarrow> False"

definition fgt :: "pyfloat \<Rightarrow> pyfloat \<Rightarrow> bool" where
  "fgt a b \<longleftrightarrow> flt b a"

definition fge :: "pyfloat \<Rightarrow> pyfloat \<Rightarrow> bool" where
  "fge a b \<longleftrightarrow> fle b a"

text \<open>The builtin \<open>max(a, b)\<close>: the first argument unless the second is greater.\<close>

definition fmax :: "pyfloat \<Rightarrow> pyfloat \<Rightarrow> pyfloat" where
  "fmax a b = (if fgt b a then b else a)"

text \<open>A float literal of the source denotes the double nearest to its decimal value.\<close>

definition lit :: "real \<Rightarrow> pyfloat" where
  "lit x = to_double x"

section \<open>String operations and regular expressions\<close>

text \<open>\<open>s.strip()\<close>: leading and trailing whitespace removed.\<close>

definition strip :: "str \<Rightarrow> str" where
  "strip s = rev (dropWhile isspace (rev (dropWhile isspace s)))"

text \<open>
  \<open>re.sub(cls+, ' ', s)\<close> for a character class \<open>cls\<close>: every maximal run of characters of
  the class is replaced by one space (code point 32).
\<close>

fun sub_runs :: "(nat \<Rightarrow> bool) \<Rightarrow> str \<Rightarrow> str" where
  "sub_runs cls [] = []"
| "sub_runs cls [c] = (if cls c then [32] else [c])"
| "sub_runs cls (c # d # cs) =
     (if cls c then (if cls d then sub_runs cls (d # cs) else 32 # sub_runs cls (d # cs))
      else c # sub_runs cls (d # cs))"

text \<open>\<open>s.split(" ")\<close>: split at every single space; never the empty list.\<close>

fun split_space :: "str \<Rightarrow> str list" where
  "split_space [] = [[]]"
| "split_space (c # cs) =
     (if c = 32 then [] # split_space cs
      else (case split_space cs of [] \<Rightarrow> [[c]] | t # ts \<Rightarrow> (c # t) # ts))"

text \<open>\<open>" ".join(tokens)\<close>.\<close>

fun join_space :: "str list \<Rightarrow> str" where
  "join_space [] = []"
| "join_space [t] = t"
| "join_space (t # u # ts) = t @ 32 # join_space (u # ts)"

text \<open>
  \<open>text.splitlines()\<close>: the line boundaries are \<open>\n\<close>, \<open>\r\<close>, \<open>\r\n\<close>, \<open>\v\<close>, \<open>\f\<close>,
  \<open>\x1c\<close>, \<open>\x1d\<close>, \<open>\x1e\<close>, \<open>\x85\<close>, U+2028 and U+2029; a final boundary opens no new line.
  The first argument is the current line, reversed.
\<close>

definition islinebreak :: "nat \<Rightarrow> bool" where
  "islinebreak c \<longleftrightarrow> (10 \<le> c \<and> c \<le> 13) \<or> (28 \<le> c \<and> c \<le> 30) \<or> c = 133 \<or> c = 8232 \<or> c = 8233"

fun splitlines_from :: "str \<Rightarrow> str \<Rightarrow> str list" where
  "splitlines_from cur [] = (if cur = [] then [] else [rev cur])"
| "splitlines_from cur [c] = (if islinebreak c then [rev cur] else [rev (c # cur)])"
| "splitlines_from cur (c # d # cs) =
     (if c = 13 \<and> d = 10 then rev cur # splitlines_from [] cs
      else if islinebreak c then rev cur # splitlines_from [] (d # cs)
      else splitlines_from (c # cur) (d # cs))"

definition splitlines :: "str \<Rightarrow> str list" where
  "splitlines s = splitlines_from [] s"

subsection \<open>The regular expressions\<close>

text \<open>
  Each pattern is modelled by a function that tries the pattern at the head of a string and
  returns the captured groups with the unmatched rest. The quantifiers of the source are
  greedy, and in these patterns every greedy item is followed by an item that cannot start
  with a character the greedy item accepts, so backtracking never finds a match that the
  greedy attempt misses, and the greedy match is the one \<open>re\<close> reports.
\<close>

text \<open>\<open>\d+(?:[.,]\d+)?\<close> at the head of \<open>s\<close>: the matched text and the rest.\<close>

definition num_body :: "str \<Rightarrow> (str \<times> str) option" where
  "num_body s =
     (let ds = takeWhile isdigit s; r = dropWhile isdigit s in
      if ds = [] then None
      else (case r of
              [] \<Rightarrow> Some (ds, r)
            | c # r' \<Rightarrow>
                if (c = 46 \<or> c = 44) \<and> takeWhile isdigit r' \<noteq> []
                then Some (ds @ c # takeWhile isdigit r', dropWhile isdigit r')
                else Some (ds, r)))"

text \<open>
  An optional sign out of \<open>signs\<close>, then \<open>num_body\<close>: \<open>-?\d+(?:[.,]\d+)?\<close> is
  \<open>num_at [45]\<close>, and \<open>_RE_NUM = [-+]?\d+(?:[.,]\d+)?\<close> is \<open>num_at [45, 43]\<close>.
\<close>

definition num_at :: "nat list \<Rightarrow> str \<Rightarrow> (str \<times> str) option" where
  "num_at signs s =
     (case s of
        [] \<Rightarrow> None
      | c # s' \<Rightarrow>
          if c \<in> set signs
          then (case num_body s' of None \<Rightarrow> None | Some (t, r) \<Rightarrow> Some (c # t, r))
          else num_body s)"

text \<open>\<open>_RE_RANGE\<close> at the head of \<open>s\<close>: the groups \<open>low\<close> and \<open>high\<close>, and the rest.\<close>

definition RE_RANGE :: "str \<Rightarrow> ((str \<times> str) \<times> str) option" where
  "RE_RANGE s =
     (case num_at [45] s of
        None \<Rightarrow> None
      | Some (lo, r1) \<Rightarrow>
          (case dropWhile isspace r1 of
             [] \<Rightarrow> None
           | c # r2 \<Rightarrow>
               if c = 45
               then (case num_at [45] (dropWhile isspace r2) of
                       None \<Rightarrow> None
                     | Some (hi, r3) \<Rightarrow> Some ((lo, hi), r3))
               else None))"

text \<open>\<open>_RE_LT\<close> and \<open>_RE_GT\<close>: the character \<open>op\<close> (60 is \<open><\<close>, 62 is \<open>>\<close>), whitespace, a number.\<close>

definition lim_at :: "nat \<Rightarrow> str \<Rightarrow> (str \<times> str) option" where
  "lim_at op s =
     (case s of
        [] \<Rightarrow> None
      | c # r \<Rightarrow> if c = op then num_at [45] (dropWhile isspace r) else None)"

definition RE_LT :: "str \<Rightarrow> (str \<times> str) option" where
  "RE_LT = lim_at 60"

definition RE_GT :: "str \<Rightarrow> (str \<times> str) option" where
  "RE_GT = lim_at 62"

text \<open>\<open>_RE_NUM.fullmatch(tok)\<close>.\<close>

definition RE_NUM_fullmatch :: "str \<Rightarrow> bool" where
  "RE_NUM_fullmatch tok \<longleftrightarrow> (case num_at [45, 43] tok of Some (t, r) \<Rightarrow> r = [] | None \<Rightarrow> False)"

text \<open>
  \<open>rx.search(s)\<close>: the match at the leftmost position where the pattern matches, with that
  position; \<open>search_from rx i s\<close> scans \<open>s\<close>, which starts at position \<open>i\<close>.
\<close>

fun search_from :: "(str \<Rightarrow> ('g \<times> str) option) \<Rightarrow> nat \<Rightarrow> str \<Rightarrow> (nat \<times> 'g) option" where
  "search_from rx i [] = (case rx [] of None \<Rightarrow> None | Some (g, r) \<Rightarrow> Some (i, g))"
| "search_from rx i (c # cs) =
     (case rx (c # cs) of
        Some (g, r) \<Rightarrow> Some (i, g)
      | None \<Rightarrow> search_from rx (Suc i) cs)"

definition search :: "(str \<Rightarrow> ('g \<times> str) option) \<Rightarrow> str \<Rightarrow> (nat \<times> 'g) option" where
  "search rx s = search_from rx 0 s"

text \<open>
  \<open>rx.finditer(s)\<close>: the non-overlapping matches from left to right, each with its start.
  After a match the scan resumes at the end of the match: \<open>skip\<close> counts the characters
  of the last match that are still to be passed over.
\<close>

fun finditer_from :: "(str \<Rightarrow> ('g \<times> str) option) \<Rightarrow> nat \<Rightarrow> nat \<Rightarrow> str \<Rightarrow> (nat \<times> 'g) list" where
  "finditer_from rx i skip [] = []"
| "finditer_from rx i skip (c # cs) =
     (if 0 < skip then finditer_from rx (Suc i) (skip - 1) cs
      else (case rx (c # cs) of
              None \<Rightarrow> finditer_from rx (Suc i) 0 cs
            | Some (g, r) \<Rightarrow> (i, g) # finditer_from rx (Suc i) (length cs - length r) cs))"

definition finditer :: "(str \<Rightarrow> ('g \<times> str) option) \<Rightarrow> str \<Rightarrow> (nat \<times> 'g) list" where
  "finditer rx s = finditer_from rx 0 0 s"

subsection \<open>Numbers\<close>

definition digits_val :: "str \<Rightarrow> nat" where
  "digits_val ds = foldl (\<lambda>a c. 10 * a + digit_of c) 0 ds"

text \<open>
  The decimal value that \<open>float(s)\<close> reads from the notations \<open>[+-]digits\<close>,
  \<open>[+-]digits.digits\<close>, \<open>[+-]digits.\<close> and \<open>[+-].digits\<close>; \<open>None\<close> stands for \<open>ValueError\<close>.
  Exponents, underscores, \<open>inf\<close>, \<open>nan\<close> and surrounding whitespace, which \<open>float\<close> also
  accepts, never occur in a text that the patterns above capture, and are not modelled.
  \<open>float\<close> returns the double nearest to this value (see \<open>to_float\<close> below).
\<close>

definition py_float :: "str \<Rightarrow> real option" where
  "py_float s =
     (let neg = (s \<noteq> [] \<and> hd s = 45);
          u = (if s \<noteq> [] \<and> (hd s = 45 \<or> hd s = 43) then tl s else s);
          ip = takeWhile isdigit u;
          r = dropWhile isdigit u;
          sgn = (if neg then - 1 else 1) in
      (case r of
         [] \<Rightarrow> if ip = [] then None else Some (sgn * real (digits_val ip))
       | c # fr \<Rightarrow>
           if c = 46 \<and> list_all isdigit fr \<and> (ip \<noteq> [] \<or> fr \<noteq> [])
           then Some (sgn * (real (digits_val ip) + real (digits_val fr) / 10 ^ length fr))
           else None))"

section \<open>labs\_parser: reference ranges, classification and rows\<close>

text \<open>\<open>_to_float(s)\<close>: \<open>float(s.replace(',', '.'))\<close>, any exception turned into \<open>None\<close>.\<close>

definition to_float :: "str \<Rightarrow> pyfloat option" where
  "to_float s = map_option to_double (py_float (map (\<lambda>c. if c = 44 then 46 else c) s))"

datatype ref_mode = Range | LessThan | GreaterThan | Unknown

record RefRange =
  mode :: ref_mode
  low :: "pyfloat option"
  high :: "pyfloat option"
  rtext :: str  \<comment> \<open>the field \<open>text\<close> of the source\<close>

datatype status = Low | High | Borderline | Normal | StatusUnknown

text \<open>\<open>parse_ref(ref_text)\<close>: the first of the three patterns found in the stripped text.\<close>

definition parse_ref :: "str \<Rightarrow> RefRange" where
  "parse_ref ref_text =
     (let t = strip ref_text in
      case search RE_RANGE t of
        Some (i, (lo, hi)) \<Rightarrow> \<lparr>mode = Range, low = to_float lo, high = to_float hi, rtext = t\<rparr>
      | None \<Rightarrow>
          (case search RE_LT t of
             Some (i, lm) \<Rightarrow> \<lparr>mode = LessThan, low = None, high = to_float lm, rtext = t\<rparr>
           | None \<Rightarrow>
               (case search RE_GT t of
                  Some (i, lm) \<Rightarrow> \<lparr>mode = GreaterThan, low = to_float lm, high = None, rtext = t\<rparr>
                | None \<Rightarrow> \<lparr>mode = Unknown, low = None, high = None, rtext = t\<rparr>)))"

text \<open>\<open>classify_value(value, ref, borderline_ratio)\<close>; the source's default ratio is 0.05.\<close>

definition classify_value :: "pyfloat option \<Rightarrow> RefRange \<Rightarrow> pyfloat \<Rightarrow> status" where
  "classify_value val ref borderline_ratio =
     (case val of
        None \<Rightarrow> StatusUnknown
      | Some v \<Rightarrow>
          (case (mode ref, low ref, high ref) of
             (Range, Some lo, Some hi) \<Rightarrow>
               if flt v lo then Low
               else if fgt v hi then High
               else (let span = fmax (fsub hi lo) (lit (1 / 1000000)) in
                     if fle v (fadd lo (fmul span borderline_ratio)) \<or>
                        fge v (fsub hi (fmul span borderline_ratio))
                     then Borderline else Normal)
           | (LessThan, _, Some hi) \<Rightarrow>
               if fgt v hi then High
               else if fge v (fmul hi (fsub (lit 1) borderline_ratio)) then Borderline
               else Normal
           | (GreaterThan, Some lo, _) \<Rightarrow>
               if flt v lo then Low
               else if fle v (fmul lo (fadd (lit 1) borderline_ratio)) then Borderline
               else Normal
           | _ \<Rightarrow> StatusUnknown))"

text \<open>
  The borderline margin \<open>span * borderline_ratio\<close> of the \<open>range\<close> branch, where
  \<open>span = max(high - low, 0.000001)\<close>.
\<close>

definition margin :: "real \<Rightarrow> real \<Rightarrow> pyfloat \<Rightarrow> pyfloat" where
  "margin lo hi ratio = fmul (fmax (fsub (Fin hi) (Fin lo)) (lit (1 / 1000000))) ratio"

text \<open>
  The five-band reading of "borderline monotonicity": there are two cut points \<open>a < b\<close>
  inside \<open>[lo, hi]\<close> such that, as the value grows, the status is \<open>Low\<close> below
  \<open>lo\<close>, \<open>Borderline\<close> on \<open>[lo, a]\<close>, \<open>Normal\<close> strictly between \<open>a\<close> and \<open>b\<close>,
  \<open>Borderline\<close> on \<open>[b, hi]\<close> and \<open>High\<close> above \<open>hi\<close>, and some double \<open>n\<close> lies
  in the \<open>Normal\<close> band.
\<close>

definition five_bands :: "real \<Rightarrow> real \<Rightarrow> pyfloat \<Rightarrow> bool" where
  "five_bands lo hi ratio \<longleftrightarrow>
     (\<exists>a b n. lo \<le> a \<and> a < n \<and> n < b \<and> b \<le> hi \<and> is_double n \<and>
        (\<forall>v. classify_value (Some (Fin v))
               \<lparr>mode = Range, low = Some (Fin lo), high = Some (Fin hi), rtext = []\<rparr> ratio =
          (if v < lo then Low
           else if v \<le> a then Borderline
           else if v < b then Normal
           else if v \<le> hi then Borderline
           else High)))"

record LabRow =
  test_name :: str
  result_text :: str
  result_value :: "pyfloat option"
  unit :: str
  ref_text :: str
  ref :: RefRange
  status :: status

text \<open>
  The loop \<open>for rx in (_RE_RANGE, _RE_LT, _RE_GT): for m in rx.finditer(raw): ref_match = m\<close>:
  every match in turn is assigned to \<open>ref_match\<close>, whose start is all that is used later.
\<close>

definition ref_matches :: "str \<Rightarrow> nat list" where
  "ref_matches raw =
     map fst (finditer RE_RANGE raw) @ map fst (finditer RE_LT raw) @ map fst (finditer RE_GT raw)"

definition ref_match :: "str \<Rightarrow> nat option" where
  "ref_match raw = foldl (\<lambda>cur m. Some m) None (ref_matches raw)"

text \<open>
  \<open>for i in range(len(tokens)-1, -1, -1): if _RE_NUM.fullmatch(tokens[i]): val_idx = i; break\<close>:
  the greatest index whose token is a number.
\<close>

primrec find_val_idx :: "str list \<Rightarrow> nat option" where
  "find_val_idx [] = None"
| "find_val_idx (t # ts) =
     (case find_val_idx ts of
        Some i \<Rightarrow> Some (Suc i)
      | None \<Rightarrow> if RE_NUM_fullmatch t then Some 0 else None)"

text \<open>\<open>_extract_row_from_line(line)\<close>; the default \<open>borderline_ratio\<close> is the literal \<open>0.05\<close>.\<close>

definition extract_row_from_line :: "str \<Rightarrow> LabRow option" where
  "extract_row_from_line line =
     (let raw = sub_runs isspace (strip line) in
      if length raw < 8 then None
      else (case ref_match raw of
              None \<Rightarrow> None
            | Some start \<Rightarrow>
                (let ref_text = strip (drop start raw);
                     left = strip (take start raw);
                     tokens = split_space left in
                 case find_val_idx tokens of
                   None \<Rightarrow> None
                 | Some val_idx \<Rightarrow>
                     (let result_text = tokens ! val_idx;
                          val = to_float result_text;
                          unit = (if val_idx + 1 < length tokens
                                  then strip (join_space (drop (val_idx + 1) tokens)) else []);
                          name = strip (join_space (take val_idx tokens)) in
                      if length name < 2 then None
                      else (let ref = parse_ref ref_text;
                                status = classify_value val ref (lit (5 / 100)) in
                            Some \<lparr>test_name = name, result_text = result_text, result_value = val,
                                  unit = unit, ref_text = ref_text, ref = ref, status = status\<rparr>)))))"

text \<open>\<open>parse_enabiz_text(text)\<close>: the rows of the lines that yield one, in input order.\<close>

definition parse_enabiz_text :: "str \<Rightarrow> LabRow list" where
  "parse_enabiz_text text = List.map_filter extract_row_from_line (splitlines text)"

section \<open>Auxiliary notions\<close>

text \<open>A match result whose rest is extended by \<open>ws\<close>.\<close>

definition with_rest :: "str \<Rightarrow> ('g \<times> str) option \<Rightarrow> ('g \<times> str) option" where
  "with_rest ws m = map_option (\<lambda>(g, r). (g, r @ ws)) m"

text \<open>The texts of the form \<open>\d+\<close> or \<open>\d+[.,]\d+\<close>.\<close>

definition numtext :: "str \<Rightarrow> bool" where
  "numtext t \<longleftrightarrow>
     (\<exists>ds. ds \<noteq> [] \<and> list_all isdigit ds \<and>
        (t = ds \<or> (\<exists>c fs. (c = 46 \<or> c = 44) \<and> fs \<noteq> [] \<and> list_all isdigit fs \<and> t = ds @ c # fs)))"

section \<open>Evaluation and rounding of floats\<close>

text \<open>The unfolding rules that evaluate float arithmetic on concrete numbers.\<close>

lemmas fl_ev = rhe_def expo_def ulp_def rnd_def to_double_def Let_def compute_floorlog
  fsub_def fmul_def fgt_def fge_def fmax_def lit_def

lemma rhe_floor: "\<lfloor>x\<rfloor> \<le> rhe x" "rhe x \<le> \<lfloor>x\<rfloor> + 1"
  unfolding rhe_def Let_def by auto

lemma rhe_of_int [simp]: "rhe (of_int k) = k"
  unfolding rhe_def Let_def by simp

lemma rhe_ge: "of_int k \<le> x \<Longrightarrow> k \<le> rhe x"
proof -
  assume "of_int k \<le> x"
  hence "k \<le> \<lfloor>x\<rfloor>" by (simp add: le_floor_iff)
  with rhe_floor(1)[of x] show ?thesis by linarith
qed

lemma rhe_le:
  assumes "x \<le> of_int k"
  shows "rhe x \<le> k"
proof (cases "x = of_int k")
  case True
  then show ?thesis by simp
next
  case False
  with assms have "x < of_int k" by simp
  hence "\<lfloor>x\<rfloor> < k" by (simp add: floor_less_iff)
  with rhe_floor(2)[of x] show ?thesis by simp
qed

lemma rhe_minus: "rhe (- x) = - rhe x"
proof (cases "x = of_int \<lfloor>x\<rfloor>")
  case True
  then obtain k :: int where "x = of_int k" ..
  hence "- x = of_int (- k)" by simp
  then show ?thesis unfolding \<open>x = of_int k\<close> by (metis rhe_of_int)
next
  case False
  define f where "f = \<lfloor>x\<rfloor>"
  define d where "d = x - of_int f"
  have d: "0 < d" "d < 1" using False unfolding d_def f_def by linarith+
  have fm: "\<lfloor>- x\<rfloor> = - f - 1" unfolding f_def using False by linarith
  have x: "x = of_int f + d" by (simp add: d_def)
  have m: "- x - of_int (- f - 1) = 1 - d" by (simp add: x)
  have "rhe x = (if d < 1 / 2 then f else if 1 / 2 < d then f + 1 else if even f then f else f + 1)"
    unfolding rhe_def Let_def f_def[symmetric] d_def[symmetric] ..
  moreover have "rhe (- x) = (if 1 - d < 1 / 2 then - f - 1 else if 1 / 2 < 1 - d then - f 
                  else if even (- f - 1) then - f - 1 else - f)"
    unfolding rhe_def Let_def fm m by simp
  ultimately show ?thesis by auto
qed

lemma expo_bounds:
  assumes "x \<noteq> 0"
  shows "2 powi (expo x) \<le> \<bar>x\<bar> \<and> \<bar>x\<bar> < 2 powi (expo x + 1)"
proof (cases "1 \<le> \<bar>x\<bar>")
  case True
  define n where "n = nat \<lfloor>\<bar>x\<bar>\<rfloor>"
  define f where "f = floorlog 2 n"
  have n: "0 < n" "real n \<le> \<bar>x\<bar>" "\<bar>x\<bar> < real n + 1"
    using True unfolding n_def by (auto; linarith)+
  from floorlog_bounds[of n 2] n(1) have b: "2 ^ (f - 1) \<le> n" "n < 2 ^ f"
    by (auto simp: f_def)
  have f: "0 < f" using b(2) n(1) by (cases f) auto
  have e: "expo x = int f - 1" using True by (simp add: expo_def f_def n_def)
  have p1: "2 powi (int f - 1) = (2::real) ^ (f - 1)"
    using f by (simp add: power_int_def nat_diff_distrib')
  have p2: "2 powi (int f - 1 + 1) = (2::real) ^ f" by simp
  have r1: "(2::real) ^ (f - 1) \<le> real n" using b(1) by (metis of_nat_le_iff of_nat_numeral of_nat_power)
  have r2: "real n + 1 \<le> 2 ^ f" using b(2) by (metis Suc_leI of_nat_Suc of_nat_le_iff of_nat_numeral of_nat_power add.commute)
  have "2 powi (int f - 1) \<le> \<bar>x\<bar>" "\<bar>x\<bar> < 2 powi (int f - 1 + 1)"
    unfolding p1 p2 using n r1 r2 by linarith+
  then show ?thesis unfolding e by blast
next
  case False
  define a where "a = \<bar>x\<bar>"
  have a: "0 < a" "a < 1" using assms False by (auto simp: a_def)
  define c where "c = \<lceil>1 / a\<rceil>"
  define n where "n = nat (c - 1)"
  define f where "f = floorlog 2 n"
  have "1 < 1 / a" using a by simp
  hence c2: "2 \<le> c" unfolding c_def by linarith
  have c: "1 / a \<le> of_int c" "of_int c - 1 < 1 / a" unfolding c_def by linarith+
  have n: "0 < n" "real n = of_int c - 1" using c2 by (auto simp: n_def)
  from floorlog_bounds[of n 2] n(1) have b: "2 ^ (f - 1) \<le> n" "n < 2 ^ f"
    by (auto simp: f_def)
  have f: "0 < f" using b(2) n(1) by (cases f) auto
  have e: "expo x = - int f" using False by (simp add: expo_def f_def n_def c_def a_def)
  have r1: "(2::real) ^ (f - 1) \<le> real n" using b(1) by (metis of_nat_le_iff of_nat_numeral of_nat_power)
  have r2: "real n + 1 \<le> 2 ^ f" using b(2) by (metis Suc_leI of_nat_Suc of_nat_le_iff of_nat_numeral of_nat_power add.commute)
  have "1 / a \<le> 2 ^ f" using c n r2 by linarith
  hence lo: "1 / 2 ^ f \<le> a" using a by (simp add: field_simps)
  have "2 ^ (f - 1) < 1 / a" using c n r1 by linarith
  hence hi: "a < 1 / 2 ^ (f - 1)" using a by (simp add: field_simps)
  have p1: "2 powi (- int f) = 1 / (2::real) ^ f" by (simp add: power_int_minus_divide)
  have p2: "2 powi (- int f + 1) = 1 / (2::real) ^ (f - 1)"
    using f by (cases f) (auto simp: power_int_def power_one_over)
  have "2 powi (- int f) \<le> \<bar>x\<bar>" "\<bar>x\<bar> < 2 powi (- int f + 1)"
    unfolding p1 p2 using lo hi by (simp_all add: a_def)
  then show ?thesis unfolding e by blast
qed

lemma expo_minus [simp]: "expo (- x) = expo x"
  by (simp add: expo_def)

lemma ulp_minus [simp]: "ulp (- x) = ulp x"
  by (simp add: ulp_def)

lemma ulp_pos [simp]: "0 < ulp x"
  by (simp add: ulp_def)

lemma rnd_minus: "rnd (- x) = - rnd x"
  by (simp add: rnd_def rhe_minus)

lemma expo_mono:
  assumes "x \<noteq> 0" "\<bar>x\<bar> \<le> \<bar>y\<bar>"
  shows "expo x \<le> expo y"
proof -
  have y: "y \<noteq> 0" using assms by auto
  have "2 powi (expo x) < (2::real) powi (expo y + 1)"
    using expo_bounds[OF assms(1)] expo_bounds[OF y] assms(2) by linarith
  hence "expo x < expo y + 1"
    by (rule_tac ccontr) (simp add: not_less power_int_increasing leD)
  thus ?thesis by simp
qed

text \<open>A multiple of the grid step of \<open>y\<close> below \<open>y\<close> stays below the rounded \<open>y\<close>.\<close>

lemma rnd_ge_grid:
  assumes "d = of_int k * ulp y" "d \<le> y"
  shows "d \<le> rnd y"
proof (cases "y = 0")
  case True
  then show ?thesis using assms by (simp add: rnd_def)
next
  case False
  have "of_int k \<le> y / ulp y" using assms by (simp add: pos_le_divide_eq)
  hence "k \<le> rhe (y / ulp y)" by (rule rhe_ge)
  hence "of_int k * ulp y \<le> of_int (rhe (y / ulp y)) * ulp y"
    by (simp add: mult_right_mono)
  then show ?thesis using False assms by (simp add: rnd_def)
qed

lemma is_double_grid: "is_double d \<Longrightarrow> d = of_int (rhe (d / ulp d)) * ulp d"
  using rhe_of_int[of 0] by (cases "d = 0") (auto simp: is_double_def rnd_def)

lemma is_double_rnd: "is_double d \<Longrightarrow> rnd d = d"
  by (simp add: is_double_def)

lemma rnd_ge:
  assumes "is_double d" "d \<le> y"
  shows "d \<le> rnd y"
proof -
  consider "y = 0" | "0 < y" "d \<le> 0" | "0 < y" "0 < d" | "y < 0" by linarith
  then show ?thesis
  proof cases
    case 1
    then show ?thesis using assms by (simp add: rnd_def)
  next
    case 2
    have "0 \<le> rnd y" using rnd_ge_grid[of 0 0 y] 2 by simp
    with 2 show ?thesis by simp
  next
    case 3
    have dn: "d \<noteq> 0" using 3 by simp
    have ee: "expo d \<le> expo y" using expo_mono[OF dn] 3 assms by simp
    show ?thesis
    proof (cases "max (expo d) (- 1022) = max (expo y) (- 1022)")
      case True
      hence "ulp d = ulp y" by (simp add: ulp_def)
      with is_double_grid[OF assms(1)] have "d = of_int (rhe (d / ulp d)) * ulp y" by simp
      from rnd_ge_grid[OF this assms(2)] show ?thesis .
    next
      case False
      with ee have lt: "expo d < expo y" and big: "- 1022 < expo y" by auto
      have u: "ulp y = 2 powi (expo y - 52)" using big by (simp add: ulp_def max_def)
      have "(2::real) powi 52 * 2 powi (expo y - 52) = 2 powi (52 + (expo y - 52))"
        by (subst power_int_add) simp_all
      hence "2 powi (expo y) = (2::real) powi 52 * 2 powi (expo y - 52)" by simp
      hence g: "2 powi (expo y) = of_int (2 ^ 52) * ulp y" by (simp add: u)
      have yn: "y \<noteq> 0" using 3 by simp
      have "2 powi (expo y) \<le> y" using expo_bounds[OF yn] 3 by simp
      from rnd_ge_grid[OF g this] have r: "2 powi (expo y) \<le> rnd y" .
      have "d < 2 powi (expo d + 1)" using expo_bounds[OF dn] 3 by simp
      also have "\<dots> \<le> 2 powi (expo y)" using lt by (simp add: power_int_increasing)
      finally show ?thesis using r by simp
    qed
  next
    case 4
    have dn: "d \<noteq> 0" "d < 0" using 4 assms by simp_all
    have yn: "y \<noteq> 0" using 4 by simp
    have ee: "expo y \<le> expo d" using expo_mono[OF yn] 4 assms dn by simp
    define j where "j = max (expo d) (- 1022) - max (expo y) (- 1022)"
    have j: "0 \<le> j" using ee by (simp add: j_def)
    have "ulp d = 2 powi j * ulp y"
      unfolding ulp_def j_def by (simp flip: power_int_add)
    also have "2 powi j = (of_int (2 ^ nat j) :: real)" using j by (simp add: power_int_def)
    finally have "ulp d = of_int (2 ^ nat j) * ulp y" .
    with is_double_grid[OF assms(1)]
    have "d = of_int (rhe (d / ulp d) * 2 ^ nat j) * ulp y" by simp
    from rnd_ge_grid[OF this assms(2)] show ?thesis .
  qed
qed

lemma is_double_minus: "is_double d \<Longrightarrow> is_double (- d)"
  by (simp add: is_double_def rnd_minus)

lemma rnd_le:
  assumes "is_double d" "y \<le> d"
  shows "rnd y \<le> d"
  using rnd_ge[OF is_double_minus[OF assms(1)], of "- y"] assms(2) by (simp add: rnd_minus)

lemma rnd_nonneg: "0 \<le> y \<Longrightarrow> 0 \<le> rnd y"
  using rnd_ge_grid[of 0 0 y] by simp


lemma to_double_cases:
  obtains "to_double x = PInf" "2 ^ 1024 \<le> rnd x"
  | "to_double x = NInf" "rnd x \<le> - (2 ^ 1024)"
  | "to_double x = Fin (rnd x)" "\<bar>rnd x\<bar> < 2 ^ 1024"
  unfolding to_double_def Let_def by (cases "2 ^ 1024 \<le> rnd x"; cases "rnd x \<le> - (2 ^ 1024)") auto

lemma to_double_ge:
  assumes "is_double d" "d \<le> y"
  shows "to_double y = PInf \<or> (\<exists>a. to_double y = Fin a \<and> d \<le> a)"
proof -
  have "d \<le> rnd y" using assms by (rule rnd_ge)
  moreover have "- (2 ^ 1024) < d" using assms(1) by (simp add: is_double_def abs_less_iff)
  ultimately show ?thesis by (cases y rule: to_double_cases) auto
qed

lemma to_double_le:
  assumes "is_double d" "y \<le> d"
  shows "to_double y = NInf \<or> (\<exists>a. to_double y = Fin a \<and> a \<le> d)"
proof -
  have "rnd y \<le> d" using assms by (rule rnd_le)
  moreover have "d < 2 ^ 1024" using assms(1) by (simp add: is_double_def abs_less_iff)
  ultimately show ?thesis by (cases y rule: to_double_cases) auto
qed

lemma is_double_0: "is_double 0"
  by (simp add: is_double_def rnd_def)

lemma lit_eps: "lit (1 / 1000000) = Fin (4722366482869645 / 4722366482869645213696)"
  by (simp add: fl_ev)

section \<open>The number patterns\<close>

subsection \<open>Trailing whitespace does not change a match\<close>

lemma isdigit_below: "c < 1632 \<Longrightarrow> isdigit c \<longleftrightarrow> 48 \<le> c \<and> c \<le> 57"
  by (simp add: isdigit_def digit_starts_def) linarith

lemma digit_of_ascii: "48 \<le> c \<Longrightarrow> c \<le> 57 \<Longrightarrow> digit_of c = c - 48"
  by (simp add: digit_of_def digit_starts_def)

lemma isdigit_ge: "isdigit c \<Longrightarrow> 48 \<le> c"
  by (auto simp: isdigit_def digit_starts_def)

lemma digit_not_space: "isdigit c \<Longrightarrow> \<not> isspace c"
proof (cases "c < 1632")
  case True
  assume "isdigit c"
  with True have "48 \<le> c" "c \<le> 57" by (simp_all add: isdigit_below)
  then show ?thesis by (simp add: isspace_def)
next
  case False
  assume d: "isdigit c"
  show ?thesis
  proof
    assume "isspace c"
    with False have "c = 5760 \<or> (8192 \<le> c \<and> c \<le> 8202) \<or> c = 8232 \<or> c = 8233 \<or> c = 8239 \<or>
        c = 8287 \<or> c = 12288"
      by (simp add: isspace_def)
    then have "\<not> isdigit c"
      unfolding isdigit_def digit_starts_def by (elim disjE) simp_all
    with d show False by simp
  qed
qed

lemma takeWhile_digit_spaces: "list_all isspace ws \<Longrightarrow> takeWhile isdigit ws = []"
  by (cases ws) (auto dest: digit_not_space)

lemma takeWhile_digit_append_spaces:
  "list_all isspace ws \<Longrightarrow> takeWhile isdigit (s @ ws) = takeWhile isdigit s"
  by (induction s) (simp_all add: takeWhile_digit_spaces)

lemma dropWhile_digit_spaces: "list_all isspace ws \<Longrightarrow> dropWhile isdigit ws = ws"
  by (cases ws) (auto dest: digit_not_space)

lemma dropWhile_digit_append_spaces:
  "list_all isspace ws \<Longrightarrow> dropWhile isdigit (s @ ws) = dropWhile isdigit s @ ws"
  by (induction s) (simp_all add: dropWhile_digit_spaces)

lemma dropWhile_space_append_spaces:
  "list_all isspace ws \<Longrightarrow>
   dropWhile isspace (s @ ws) = (if list_all isspace s then [] else dropWhile isspace s @ ws)"
  by (induction s) (simp_all add: list_all_iff)

lemma dropWhile_space_all: "list_all isspace s \<Longrightarrow> dropWhile isspace s = []"
  by (simp add: list_all_iff)

lemma with_rest_simps [simp]:
  "with_rest ws None = None" "with_rest ws (Some (g, r)) = Some (g, r @ ws)"
  by (simp_all add: with_rest_def)

lemma with_rest_Nil [simp]: "with_rest [] m = m"
  by (cases m) (auto simp: with_rest_def)

lemma with_rest_None_iff [simp]: "with_rest ws m = None \<longleftrightarrow> m = None"
  by (simp add: with_rest_def)

lemma space_not_sep:
  "isspace w \<Longrightarrow> w \<noteq> 46 \<and> w \<noteq> 44 \<and> w \<noteq> 45 \<and> w \<noteq> 43 \<and> w \<noteq> 60 \<and> w \<noteq> 62"
  by (auto simp: isspace_def)

lemma num_body_append_spaces:
  assumes "list_all isspace ws"
  shows "num_body (s @ ws) = with_rest ws (num_body s)"
proof -
  define ds where "ds = takeWhile isdigit s"
  define r where "r = dropWhile isdigit s"
  define frac :: "str \<Rightarrow> (str \<times> str) option" where
    "frac = (\<lambda>u. case u of [] \<Rightarrow> Some (ds, u)
                 | c # r' \<Rightarrow> if (c = 46 \<or> c = 44) \<and> takeWhile isdigit r' \<noteq> []
                            then Some (ds @ c # takeWhile isdigit r', dropWhile isdigit r')
                            else Some (ds, u))"
  have L: "num_body (s @ ws) = (if ds = [] then None else frac (r @ ws))"
    unfolding num_body_def Let_def takeWhile_digit_append_spaces[OF assms]
      dropWhile_digit_append_spaces[OF assms] ds_def r_def frac_def ..
  have R: "num_body s = (if ds = [] then None else frac r)"
    unfolding num_body_def Let_def ds_def r_def frac_def ..
  have "frac (r @ ws) = with_rest ws (frac r)"
  proof (cases r)
    case r_Nil: Nil
    show ?thesis
    proof (cases ws)
      case Nil
      then show ?thesis using r_Nil by simp
    next
      case (Cons w ws')
      with assms have "w \<noteq> 46" "w \<noteq> 44" by (auto dest: space_not_sep)
      then show ?thesis using r_Nil Cons by (simp add: frac_def)
    qed
  next
    case (Cons c r0)
    then show ?thesis
      by (simp add: frac_def takeWhile_digit_append_spaces[OF assms]
            dropWhile_digit_append_spaces[OF assms])
  qed
  then show ?thesis by (simp add: L R)
qed

lemma num_at_Nil: "num_at signs [] = None"
  by (simp add: num_at_def)

lemma num_at_append_spaces:
  assumes "list_all isspace ws" and "\<forall>c\<in>set signs. \<not> isspace c"
  shows "num_at signs (s @ ws) = with_rest ws (num_at signs s)"
proof (cases s)
  case Nil
  have "num_at signs ws = None"
  proof (cases ws)
    case Nil then show ?thesis by (simp add: num_at_def)
  next
    case (Cons w ws')
    with assms have "w \<notin> set signs" "\<not> isdigit w" by (auto dest: digit_not_space)
    then show ?thesis using Cons by (simp add: num_at_def num_body_def)
  qed
  with Nil show ?thesis by (simp add: num_at_def)
next
  case (Cons c s')
  then show ?thesis
    using num_body_append_spaces[OF assms(1), of s'] num_body_append_spaces[OF assms(1), of "c # s'"]
    by (auto simp: num_at_def split: option.splits)
qed

lemma RE_RANGE_append_spaces:
  assumes "list_all isspace ws"
  shows "RE_RANGE (s @ ws) = with_rest ws (RE_RANGE s)"
proof -
  have sg: "\<forall>c\<in>set [45::nat]. \<not> isspace c" by (simp add: isspace_def)
  note na = num_at_append_spaces[OF assms sg]
  show ?thesis
  proof (cases "num_at [45] s")
    case None
    then show ?thesis by (simp add: RE_RANGE_def na)
  next
    case (Some p)
    obtain lo r1 where p: "p = (lo, r1)" by (cases p)
    show ?thesis
    proof (cases "list_all isspace r1")
      case True
      then show ?thesis
        using Some p assms
        by (simp add: RE_RANGE_def na dropWhile_space_append_spaces dropWhile_space_all)
    next
      case False
      then obtain c r2 where d: "dropWhile isspace r1 = c # r2"
        by (cases "dropWhile isspace r1") (auto simp: list_all_iff)
      have hi: "num_at [45] (dropWhile isspace (r2 @ ws)) =
                with_rest ws (num_at [45] (dropWhile isspace r2))"
        using assms na[of "dropWhile isspace r2"]
        by (simp add: dropWhile_space_append_spaces dropWhile_space_all num_at_Nil)
      show ?thesis
        using Some p assms False d hi
        by (cases "num_at [45] (dropWhile isspace r2)")
           (auto simp: RE_RANGE_def na dropWhile_space_append_spaces)
    qed
  qed
qed


lemma lim_at_append_spaces:
  assumes "list_all isspace ws" and "\<not> isspace op"
  shows "lim_at op (s @ ws) = with_rest ws (lim_at op s)"
proof (cases s)
  case Nil
  then show ?thesis using assms by (cases ws) (auto simp: lim_at_def)
next
  case (Cons c r)
  have sg: "\<forall>c\<in>set [45::nat]. \<not> isspace c" by (simp add: isspace_def)
  have "num_at [45] (dropWhile isspace (r @ ws)) = with_rest ws (num_at [45] (dropWhile isspace r))"
    using assms(1) num_at_append_spaces[OF assms(1) sg, of "dropWhile isspace r"]
    by (simp add: dropWhile_space_append_spaces dropWhile_space_all num_at_Nil)
  then show ?thesis using Cons by (simp add: lim_at_def)
qed

lemma RE_LT_append_spaces: "list_all isspace ws \<Longrightarrow> RE_LT (s @ ws) = with_rest ws (RE_LT s)"
  by (simp add: RE_LT_def lim_at_append_spaces isspace_def)

lemma RE_GT_append_spaces: "list_all isspace ws \<Longrightarrow> RE_GT (s @ ws) = with_rest ws (RE_GT s)"
  by (simp add: RE_GT_def lim_at_append_spaces isspace_def)


subsection \<open>Captured numbers convert to floats\<close>

lemma takeWhile_all: "list_all P xs \<Longrightarrow> takeWhile P xs = xs"
  by (simp add: list_all_iff)

lemma list_all_takeWhile: "list_all P (takeWhile P xs)"
  by (induction xs) simp_all

lemma num_body_numtext:
  assumes "num_body s = Some (t, r)"
  shows "numtext t"
proof -
  let ?ds = "takeWhile isdigit s"
  from assms have ne: "?ds \<noteq> []"
    by (auto simp: num_body_def Let_def split: if_splits)
  have dig: "list_all isdigit ?ds" by (rule list_all_takeWhile)
  show ?thesis
  proof (cases "dropWhile isdigit s")
    case Nil
    with assms ne have "t = ?ds" by (simp add: num_body_def Let_def)
    with ne dig show ?thesis unfolding numtext_def by blast
  next
    case (Cons c r')
    show ?thesis
    proof (cases "(c = 46 \<or> c = 44) \<and> takeWhile isdigit r' \<noteq> []")
      case True
      with assms ne Cons have "t = ?ds @ c # takeWhile isdigit r'"
        by (simp add: num_body_def Let_def)
      with True ne dig list_all_takeWhile[of isdigit r'] show ?thesis
        unfolding numtext_def by blast
    next
      case False
      with assms ne Cons have "t = ?ds" by (auto simp: num_body_def Let_def)
      with ne dig show ?thesis unfolding numtext_def by blast
    qed
  qed
qed

lemma digit_not_comma: "isdigit c \<Longrightarrow> c \<noteq> 44 \<and> c \<noteq> 46 \<and> c \<noteq> 45 \<and> c \<noteq> 43"
  using isdigit_ge[of c] by auto

lemma map_comma_digits:
  "list_all isdigit ds \<Longrightarrow> map (\<lambda>c. if c = 44 then 46 else c) ds = ds"
  by (induction ds) (auto dest: digit_not_comma)

lemma dropWhile_all: "list_all P xs \<Longrightarrow> dropWhile P xs = []"
  by (simp add: list_all_iff)

lemma unsigned_hd:
  assumes "u \<noteq> []" "isdigit (hd u)"
  shows "(if u \<noteq> [] \<and> (hd u = 45 \<or> hd u = 43) then tl u else u) = u"
  using assms by (auto dest: digit_not_comma)

lemma py_float_digits:
  assumes "ds \<noteq> []" "list_all isdigit ds"
  shows "py_float ds \<noteq> None"
proof -
  have h: "isdigit (hd ds)" using assms by (cases ds) auto
  show ?thesis
    unfolding py_float_def Let_def unsigned_hd[OF assms(1) h]
      takeWhile_all[OF assms(2)] dropWhile_all[OF assms(2)]
    using assms(1) by simp
qed

lemma takeWhile_digits_stop:
  "list_all isdigit ds \<Longrightarrow> \<not> isdigit c \<Longrightarrow> takeWhile isdigit (ds @ c # fs) = ds"
  by (induction ds) simp_all

lemma dropWhile_digits_stop:
  "list_all isdigit ds \<Longrightarrow> \<not> isdigit c \<Longrightarrow> dropWhile isdigit (ds @ c # fs) = c # fs"
  by (induction ds) simp_all

lemma py_float_fraction:
  assumes "ds \<noteq> []" "list_all isdigit ds" "list_all isdigit fs"
  shows "py_float (ds @ 46 # fs) \<noteq> None"
proof -
  have nd: "\<not> isdigit 46" using isdigit_ge[of 46] by auto
  have ne: "ds @ 46 # fs \<noteq> []" by simp
  have h: "isdigit (hd (ds @ 46 # fs))" using assms by (cases ds) auto
  show ?thesis
    unfolding py_float_def Let_def unsigned_hd[OF ne h]
      takeWhile_digits_stop[OF assms(2) nd] dropWhile_digits_stop[OF assms(2) nd]
    using assms by simp
qed

lemma numtext_py_float:
  assumes "numtext t"
  shows "py_float (map (\<lambda>c. if c = 44 then 46 else c) t) \<noteq> None"
proof -
  from assms obtain ds where ds: "ds \<noteq> []" "list_all isdigit ds"
    and t: "t = ds \<or> (\<exists>c fs. (c = 46 \<or> c = 44) \<and> fs \<noteq> [] \<and> list_all isdigit fs \<and> t = ds @ c # fs)"
    unfolding numtext_def by blast
  from t show ?thesis
  proof
    assume "t = ds"
    with ds show ?thesis by (simp add: map_comma_digits py_float_digits)
  next
    assume "\<exists>c fs. (c = 46 \<or> c = 44) \<and> fs \<noteq> [] \<and> list_all isdigit fs \<and> t = ds @ c # fs"
    then obtain c fs where c: "c = 46 \<or> c = 44" and fs: "list_all isdigit fs"
      and t': "t = ds @ c # fs" by blast
    have "map (\<lambda>c. if c = 44 then 46 else c) t = ds @ 46 # fs"
      using c t' ds fs by (auto simp: map_comma_digits)
    with ds fs show ?thesis by (simp add: py_float_fraction)
  qed
qed

lemma numtext_hd_digit:
  assumes "numtext t"
  shows "t \<noteq> [] \<and> isdigit (hd t)"
proof -
  from assms obtain ds where ds: "ds \<noteq> []" "list_all isdigit ds"
    and t: "t = ds \<or> (\<exists>c fs. t = ds @ c # fs)"
    unfolding numtext_def by blast
  from ds have "isdigit (hd ds)" by (cases ds) auto
  with ds t show ?thesis by (auto simp: hd_append)
qed

lemma py_float_sign:
  assumes "c = 45 \<or> c = 43" "u \<noteq> []" "isdigit (hd u)" "py_float u \<noteq> None"
  shows "py_float (c # u) \<noteq> None"
proof -
  define P where "P = (case dropWhile isdigit u of [] \<Rightarrow> takeWhile isdigit u \<noteq> []
      | d # fr \<Rightarrow> d = 46 \<and> list_all isdigit fr \<and> (takeWhile isdigit u \<noteq> [] \<or> fr \<noteq> []))"
  have sg: "(if c # u \<noteq> [] \<and> (hd (c # u) = 45 \<or> hd (c # u) = 43) then tl (c # u) else c # u) = u"
    using assms(1) by simp
  have A: "py_float u \<noteq> None \<longleftrightarrow> P"
  proof (cases "dropWhile isdigit u")
    case Nil
    show ?thesis
      unfolding py_float_def Let_def unsigned_hd[OF assms(2,3)] P_def Nil by simp
  next
    case (Cons d fr)
    show ?thesis
      unfolding py_float_def Let_def unsigned_hd[OF assms(2,3)] P_def Cons by simp
  qed
  have B: "py_float (c # u) \<noteq> None \<longleftrightarrow> P"
  proof (cases "dropWhile isdigit u")
    case Nil
    show ?thesis
      unfolding py_float_def Let_def sg P_def Nil by simp
  next
    case (Cons d fr)
    show ?thesis
      unfolding py_float_def Let_def sg P_def Cons by simp
  qed
  from assms(4) A B show ?thesis by blast
qed

lemma num_at_to_float:
  assumes "num_at signs s = Some (t, r)" and "set signs \<subseteq> {45, 43}"
  shows "to_float t \<noteq> None"
proof -
  let ?m = "map (\<lambda>c. if c = 44 then 46 else (c::nat))"
  from assms(1) obtain c s' where s: "s = c # s'"
    by (cases s) (auto simp: num_at_def)
  show ?thesis
  proof (cases "c \<in> set signs")
    case True
    with assms(1) s obtain t' where nb: "num_body s' = Some (t', r)" and t: "t = c # t'"
      by (auto simp: num_at_def split: option.splits)
    from True assms(2) have c: "c = 45 \<or> c = 43" by auto
    from nb have nt: "numtext t'" by (rule num_body_numtext)
    have hdm: "?m t' \<noteq> []" "isdigit (hd (?m t'))"
      using numtext_hd_digit[OF nt] digit_not_comma[of "hd t'"] by (cases t'; simp)+
    have "?m t = c # ?m t'" using t c by auto
    with py_float_sign[OF c hdm numtext_py_float[OF nt]] show ?thesis
      by (simp add: to_float_def)
  next
    case False
    with assms(1) s have "num_body s = Some (t, r)" by (simp add: num_at_def)
    then have "numtext t" by (rule num_body_numtext)
    then show ?thesis by (simp add: to_float_def numtext_py_float)
  qed
qed

lemma RE_RANGE_parts:
  assumes "RE_RANGE s = Some ((lo, hi), r)"
  shows "\<exists>r1 r2. num_at [45] s = Some (lo, r1) \<and> num_at [45] r2 = Some (hi, r)"
proof (cases "num_at [45] s")
  case None
  with assms show ?thesis by (simp add: RE_RANGE_def)
next
  case (Some p)
  obtain l r1 where p: "p = (l, r1)" by (cases p)
  show ?thesis
  proof (cases "dropWhile isspace r1")
    case Nil
    with assms Some p show ?thesis by (simp add: RE_RANGE_def)
  next
    case (Cons c r2)
    show ?thesis
    proof (cases "num_at [45] (dropWhile isspace r2)")
      case None
      with assms Some p Cons show ?thesis by (simp add: RE_RANGE_def split: if_splits)
    next
      case hi: (Some q)
      obtain h r3 where q: "q = (h, r3)" by (cases q)
      from assms Some p Cons hi q have "c = 45" "l = lo" "h = hi" "r3 = r"
        by (auto simp: RE_RANGE_def split: if_splits)
      with Some p hi q show ?thesis by blast
    qed
  qed
qed

lemma RE_RANGE_to_float:
  assumes "RE_RANGE s = Some ((lo, hi), r)"
  shows "to_float lo \<noteq> None \<and> to_float hi \<noteq> None"
proof -
  from RE_RANGE_parts[OF assms] obtain r1 r2 where
    lo: "num_at [45] s = Some (lo, r1)" and hi: "num_at [45] r2 = Some (hi, r)" by blast
  from num_at_to_float[OF lo] num_at_to_float[OF hi] show ?thesis by simp
qed

lemma lim_at_to_float:
  assumes "lim_at op s = Some (lm, r)"
  shows "to_float lm \<noteq> None"
proof -
  from assms obtain c s' where "s = c # s'" by (cases s) (auto simp: lim_at_def)
  with assms have "num_at [45] (dropWhile isspace s') = Some (lm, r)"
    by (auto simp: lim_at_def split: if_splits)
  from num_at_to_float[OF this] show ?thesis by simp
qed

lemma num_body_split:
  assumes "num_body s = Some (t, r)"
  shows "s = t @ r"
proof -
  let ?ds = "takeWhile isdigit s"
  have id: "s = ?ds @ dropWhile isdigit s" by simp
  from assms have ne: "?ds \<noteq> []"
    by (auto simp: num_body_def Let_def split: if_splits)
  show ?thesis
  proof (cases "dropWhile isdigit s")
    case Nil
    with assms ne have "t = ?ds" "r = []" by (simp_all add: num_body_def Let_def)
    with id Nil show ?thesis by simp
  next
    case (Cons c r')
    have id': "r' = takeWhile isdigit r' @ dropWhile isdigit r'" by simp
    show ?thesis
    proof (cases "(c = 46 \<or> c = 44) \<and> takeWhile isdigit r' \<noteq> []")
      case True
      with assms ne Cons have "t = ?ds @ c # takeWhile isdigit r'" "r = dropWhile isdigit r'"
        by (simp_all add: num_body_def Let_def)
      then have "t @ r = ?ds @ c # r'" by simp
      with id Cons show ?thesis by simp
    next
      case False
      with assms ne Cons have "t = ?ds" "r = c # r'" by (auto simp: num_body_def Let_def)
      with id Cons show ?thesis by simp
    qed
  qed
qed

lemma num_at_split:
  assumes "num_at signs s = Some (t, r)"
  shows "s = t @ r"
proof (cases s)
  case Nil
  with assms show ?thesis by (simp add: num_at_def)
next
  case (Cons c s')
  show ?thesis
  proof (cases "c \<in> set signs")
    case True
    with assms Cons obtain t' where "num_body s' = Some (t', r)" "t = c # t'"
      by (auto simp: num_at_def split: option.splits)
    with num_body_split[of s' t' r] Cons show ?thesis by simp
  next
    case False
    with assms Cons have "num_body s = Some (t, r)" by (simp add: num_at_def)
    then show ?thesis by (rule num_body_split)
  qed
qed

lemma RE_NUM_fullmatch_to_float:
  assumes "RE_NUM_fullmatch tok"
  shows "to_float tok \<noteq> None"
proof -
  from assms obtain t r where m: "num_at [45, 43] tok = Some (t, r)" and r: "r = []"
    by (auto simp: RE_NUM_fullmatch_def split: option.splits)
  from num_at_split[OF m] r num_at_to_float[OF m] show ?thesis by simp
qed

subsection \<open>Where a match can start\<close>

lemma num_at_start:
  assumes "num_at signs s = Some (t, r)" and "\<forall>c\<in>set signs. \<not> isspace c"
  shows "s \<noteq> [] \<and> \<not> isspace (hd s)"
proof -
  from assms(1) obtain c s' where s: "s = c # s'"
    by (cases s) (auto simp: num_at_def)
  show ?thesis
  proof (cases "c \<in> set signs")
    case True with assms(2) s show ?thesis by simp
  next
    case False
    with assms(1) s have "num_body (c # s') = Some (t, r)" by (simp add: num_at_def)
    then have "isdigit c" by (auto simp: num_body_def Let_def split: if_splits)
    with s show ?thesis by (simp add: digit_not_space)
  qed
qed

lemma RE_RANGE_start:
  assumes "RE_RANGE s = Some m"
  shows "s \<noteq> [] \<and> \<not> isspace (hd s)"
proof -
  obtain lo hi r where "m = ((lo, hi), r)" by (cases m) auto
  with RE_RANGE_parts[of s lo hi r] assms obtain r1 where lo: "num_at [45] s = Some (lo, r1)"
    by blast
  have "\<forall>c\<in>set [45::nat]. \<not> isspace c" by (simp add: isspace_def)
  from num_at_start[OF lo this] show ?thesis .
qed

lemma lim_at_start: "lim_at op s = Some m \<Longrightarrow> \<not> isspace op \<Longrightarrow> s \<noteq> [] \<and> \<not> isspace (hd s)"
  by (auto simp: lim_at_def split: list.splits if_splits)

section \<open>Searching and stripping\<close>

subsection \<open>Searching\<close>

lemma search_from_Some:
  "search_from rx i s = Some (j, g) \<Longrightarrow> \<exists>k r. k \<le> length s \<and> j = i + k \<and> rx (drop k s) = Some (g, r)"
proof (induction s arbitrary: i)
  case Nil
  then show ?case by (cases "rx []") auto
next
  case (Cons c cs)
  show ?case
  proof (cases "rx (c # cs)")
    case None
    with Cons.prems have "search_from rx (Suc i) cs = Some (j, g)" by simp
    from Cons.IH[OF this] obtain k r where "k \<le> length cs" "j = Suc i + k" "rx (drop k cs) = Some (g, r)"
      by blast
    then have "Suc k \<le> length (c # cs) \<and> j = i + Suc k \<and> rx (drop (Suc k) (c # cs)) = Some (g, r)"
      by simp
    then show ?thesis by blast
  next
    case (Some p)
    obtain g' r where "p = (g', r)" by (cases p)
    with Some Cons.prems have "j = i" "g' = g" by simp_all
    with Some \<open>p = (g', r)\<close> have "0 \<le> length (c # cs) \<and> j = i + 0 \<and> rx (drop 0 (c # cs)) = Some (g, r)"
      by simp
    then show ?thesis by blast
  qed
qed

lemma search_from_None:
  "search_from rx i s = None \<Longrightarrow> k \<le> length s \<Longrightarrow> rx (drop k s) = None"
proof (induction s arbitrary: i k)
  case Nil
  then show ?case by (cases "rx []") auto
next
  case (Cons c cs)
  from Cons.prems(1) have h: "rx (c # cs) = None" and t: "search_from rx (Suc i) cs = None"
    by (cases "rx (c # cs)"; auto)+
  show ?case
  proof (cases k)
    case 0
    with h show ?thesis by simp
  next
    case (Suc k')
    with Cons.prems(2) have "k' \<le> length cs" by simp
    from Cons.IH[OF t this] Suc show ?thesis by simp
  qed
qed

lemma search_head: "rx s = Some m \<Longrightarrow> search rx s \<noteq> None"
  by (cases s; cases m) (auto simp: search_def)

lemma finditer_from_sound:
  "(j, g) \<in> set (finditer_from rx i skip s) \<Longrightarrow>
   \<exists>k r. k < length s \<and> j = i + k \<and> rx (drop k s) = Some (g, r)"
proof (induction s arbitrary: i skip)
  case Nil
  then show ?case by simp
next
  case (Cons c cs)
  have step: "\<exists>k r. k < length (c # cs) \<and> j = i + k \<and> rx (drop k (c # cs)) = Some (g, r)"
    if "(j, g) \<in> set (finditer_from rx (Suc i) sk cs)" for sk
  proof -
    from Cons.IH[OF that] obtain k r where "k < length cs" "j = Suc i + k" "rx (drop k cs) = Some (g, r)"
      by blast
    then have "Suc k < length (c # cs) \<and> j = i + Suc k \<and> rx (drop (Suc k) (c # cs)) = Some (g, r)"
      by simp
    then show ?thesis by blast
  qed
  show ?case
  proof (cases "0 < skip")
    case True
    with Cons.prems have "(j, g) \<in> set (finditer_from rx (Suc i) (skip - 1) cs)" by simp
    then show ?thesis by (rule step)
  next
    case False
    show ?thesis
    proof (cases "rx (c # cs)")
      case None
      with False Cons.prems have "(j, g) \<in> set (finditer_from rx (Suc i) 0 cs)" by simp
      then show ?thesis by (rule step)
    next
      case (Some p)
      obtain g' r where p: "p = (g', r)" by (cases p)
      with Some False Cons.prems
      have "(j, g) = (i, g') \<or> (j, g) \<in> set (finditer_from rx (Suc i) (length cs - length r) cs)"
        by simp
      then show ?thesis
      proof
        assume "(j, g) = (i, g')"
        with Some p have "0 < length (c # cs) \<and> j = i + 0 \<and> rx (drop 0 (c # cs)) = Some (g, r)"
          by simp
        then show ?thesis by blast
      next
        assume "(j, g) \<in> set (finditer_from rx (Suc i) (length cs - length r) cs)"
        then show ?thesis by (rule step)
      qed
    qed
  qed
qed

lemma finditer_sound:
  "j \<in> set (map fst (finditer rx s)) \<Longrightarrow> j < length s \<and> rx (drop j s) \<noteq> None"
proof -
  assume "j \<in> set (map fst (finditer rx s))"
  then obtain g where "(j, g) \<in> set (finditer_from rx 0 0 s)"
    by (auto simp: finditer_def)
  from finditer_from_sound[OF this] show ?thesis by auto
qed

lemma last_assignment: "foldl (\<lambda>cur m. Some m) a xs = (if xs = [] then a else Some (last xs))"
  by (induction xs arbitrary: a) auto

lemma ref_match_sound:
  assumes "ref_match raw = Some start"
  shows "start < length raw \<and>
     (RE_RANGE (drop start raw) \<noteq> None \<or> RE_LT (drop start raw) \<noteq> None \<or>
      RE_GT (drop start raw) \<noteq> None)"
proof -
  from assms have ne: "ref_matches raw \<noteq> []" and "start = last (ref_matches raw)"
    by (auto simp: ref_match_def last_assignment split: if_splits)
  then have "start \<in> set (ref_matches raw)" by simp
  then have "start \<in> set (map fst (finditer RE_RANGE raw)) \<or>
      start \<in> set (map fst (finditer RE_LT raw)) \<or> start \<in> set (map fst (finditer RE_GT raw))"
    unfolding ref_matches_def by auto
  then show ?thesis using finditer_sound[of start RE_RANGE raw] finditer_sound[of start RE_LT raw]
      finditer_sound[of start RE_GT raw] by blast
qed

subsection \<open>Stripping\<close>

lemma list_all_rev_takeWhile: "list_all P (rev (takeWhile P xs))"
  by (simp add: list_all_iff) (meson set_takeWhileD)

lemma rev_split: "xs = rev (dropWhile P (rev xs)) @ rev (takeWhile P (rev xs))"
  by (metis rev_append rev_rev_ident takeWhile_dropWhile_id)

lemma strip_decomp:
  "\<exists>pre post. s = pre @ strip s @ post \<and> list_all isspace pre \<and> list_all isspace post"
proof -
  define u where "u = dropWhile isspace s"
  have u: "u = strip s @ rev (takeWhile isspace (rev u))"
    unfolding strip_def u_def by (rule rev_split)
  have "s = takeWhile isspace s @ u" by (simp add: u_def)
  with u have "s = takeWhile isspace s @ strip s @ rev (takeWhile isspace (rev u))" by simp
  moreover have "list_all isspace (takeWhile isspace s)" by (rule list_all_takeWhile)
  moreover have "list_all isspace (rev (takeWhile isspace (rev u)))" by (rule list_all_rev_takeWhile)
  ultimately show ?thesis by blast
qed

lemma strip_no_lead:
  assumes "s \<noteq> []" "\<not> isspace (hd s)"
  shows "\<exists>post. s = strip s @ post \<and> list_all isspace post"
proof -
  have d: "dropWhile isspace s = s" using assms by (cases s) auto
  have "s = strip s @ rev (takeWhile isspace (rev s))"
    unfolding strip_def d by (rule rev_split)
  moreover have "list_all isspace (rev (takeWhile isspace (rev s)))" by (rule list_all_rev_takeWhile)
  ultimately show ?thesis by blast
qed

text \<open>A pattern that matches at the head of a text still matches after stripping.\<close>

lemma RE_RANGE_strip:
  assumes "RE_RANGE s \<noteq> None"
  shows "RE_RANGE (strip s) \<noteq> None"
proof -
  from assms obtain m where m: "RE_RANGE s = Some m" by blast
  from RE_RANGE_start[OF m] strip_no_lead obtain post where p: "s = strip s @ post" "list_all isspace post"
    by blast
  from RE_RANGE_append_spaces[OF p(2), of "strip s"] p(1) assms show ?thesis
    by (cases "RE_RANGE (strip s)") auto
qed

lemma lim_at_strip:
  assumes "lim_at op s \<noteq> None" "\<not> isspace op"
  shows "lim_at op (strip s) \<noteq> None"
proof -
  from assms obtain m where m: "lim_at op s = Some m" by blast
  from lim_at_start[OF m assms(2)] strip_no_lead obtain post where p: "s = strip s @ post" "list_all isspace post"
    by blast
  from lim_at_append_spaces[OF p(2) assms(2), of "strip s"] p(1) assms(1) show ?thesis
    by (cases "lim_at op (strip s)") auto
qed

lemma RE_LT_strip: "RE_LT s \<noteq> None \<Longrightarrow> RE_LT (strip s) \<noteq> None"
  unfolding RE_LT_def by (rule lim_at_strip) (simp_all add: isspace_def)

lemma RE_GT_strip: "RE_GT s \<noteq> None \<Longrightarrow> RE_GT (strip s) \<noteq> None"
  unfolding RE_GT_def by (rule lim_at_strip) (simp_all add: isspace_def)

text \<open>A pattern found nowhere in a text is found nowhere in the stripped text.\<close>

lemma search_strip_None:
  assumes "search rx s = None"
    and stable: "\<And>u ws. list_all isspace ws \<Longrightarrow> rx (u @ ws) = with_rest ws (rx u)"
  shows "search rx (strip s) = None"
proof (rule ccontr)
  assume "search rx (strip s) \<noteq> None"
  then obtain j g where "search_from rx 0 (strip s) = Some (j, g)"
    by (auto simp: search_def)
  from search_from_Some[OF this] obtain k r where k: "k \<le> length (strip s)"
    and m: "rx (drop k (strip s)) = Some (g, r)" by blast
  from strip_decomp[of s] obtain pre post where s: "s = pre @ strip s @ post"
    and post: "list_all isspace post" by blast
  have "drop (length pre + k) (pre @ strip s @ post) = drop k (strip s) @ post" using k by simp
  then have d: "drop (length pre + k) s = drop k (strip s) @ post" using s by simp
  have "length pre + k \<le> length (pre @ strip s @ post)" using k by simp
  then have le: "length pre + k \<le> length s" using s by simp
  from assms(1) have "search_from rx 0 s = None" by (simp add: search_def)
  from search_from_None[OF this le] have "rx (drop k (strip s) @ post) = None" by (simp add: d)
  with stable[OF post, of "drop k (strip s)"] m show False by simp
qed

section \<open>parse\_ref\<close>

text \<open>The unfolding rules that evaluate the parser on a concrete text.\<close>

lemmas ev = ascii_def isspace_def isdigit_below digit_of_ascii strip_def num_body_def num_at_def
  RE_RANGE_def lim_at_def RE_LT_def RE_GT_def finditer_def search_def Let_def ref_matches_def
  ref_match_def RE_NUM_fullmatch_def digits_val_def py_float_def to_float_def parse_ref_def
  classify_value_def extract_row_from_line_def
lemmas cg = option.case_cong_weak list.case_cong_weak prod.case_cong_weak

subsection \<open>The result of parse\_ref\<close>

lemma search_to_float_RANGE:
  "search RE_RANGE t = Some (i, (lo, hi)) \<Longrightarrow> to_float lo \<noteq> None \<and> to_float hi \<noteq> None"
  unfolding search_def by (drule search_from_Some) (auto dest: RE_RANGE_to_float)

lemma search_to_float_LT: "search RE_LT t = Some (i, lm) \<Longrightarrow> to_float lm \<noteq> None"
  unfolding search_def RE_LT_def by (drule search_from_Some) (auto dest: lim_at_to_float)

lemma search_to_float_GT: "search RE_GT t = Some (i, lm) \<Longrightarrow> to_float lm \<noteq> None"
  unfolding search_def RE_GT_def by (drule search_from_Some) (auto dest: lim_at_to_float)

lemma parse_ref_cases:
  obtains (range) i lo hi where "search RE_RANGE (strip s) = Some (i, (lo, hi))"
      "parse_ref s = \<lparr>mode = Range, low = to_float lo, high = to_float hi, rtext = strip s\<rparr>"
  | (lt) i lm where "search RE_RANGE (strip s) = None" "search RE_LT (strip s) = Some (i, lm)"
      "parse_ref s = \<lparr>mode = LessThan, low = None, high = to_float lm, rtext = strip s\<rparr>"
  | (gt) i lm where "search RE_RANGE (strip s) = None" "search RE_LT (strip s) = None"
      "search RE_GT (strip s) = Some (i, lm)"
      "parse_ref s = \<lparr>mode = GreaterThan, low = to_float lm, high = None, rtext = strip s\<rparr>"
  | (unknown) "search RE_RANGE (strip s) = None" "search RE_LT (strip s) = None"
      "search RE_GT (strip s) = None"
      "parse_ref s = \<lparr>mode = Unknown, low = None, high = None, rtext = strip s\<rparr>"
proof (cases "search RE_RANGE (strip s)")
  case (Some p)
  obtain i lo hi where "p = (i, (lo, hi))" by (cases p) auto
  with Some range show ?thesis by (simp add: parse_ref_def)
next
  case None
  note n1 = None
  show ?thesis
  proof (cases "search RE_LT (strip s)")
    case (Some p)
    obtain i lm where "p = (i, lm)" by (cases p)
    with Some n1 lt show ?thesis by (simp add: parse_ref_def)
  next
    case None
    note n2 = None
    show ?thesis
    proof (cases "search RE_GT (strip s)")
      case (Some p)
      obtain i lm where "p = (i, lm)" by (cases p)
      with Some n1 n2 gt show ?thesis by (simp add: parse_ref_def)
    next
      case None
      with n1 n2 unknown show ?thesis by (simp add: parse_ref_def)
    qed
  qed
qed

lemma parse_ref_bounds:
  "(mode (parse_ref s) = Range \<longrightarrow> low (parse_ref s) \<noteq> None \<and> high (parse_ref s) \<noteq> None) \<and>
   (mode (parse_ref s) = LessThan \<longrightarrow> high (parse_ref s) \<noteq> None) \<and>
   (mode (parse_ref s) = GreaterThan \<longrightarrow> low (parse_ref s) \<noteq> None) \<and>
   (mode (parse_ref s) = Unknown \<longrightarrow> low (parse_ref s) = None \<and> high (parse_ref s) = None)"
proof (cases s rule: parse_ref_cases)
  case (range i lo hi)
  with search_to_float_RANGE[OF range(1)] show ?thesis by simp
next
  case (lt i lm)
  with search_to_float_LT[OF lt(2)] show ?thesis by simp
next
  case (gt i lm)
  with search_to_float_GT[OF gt(3)] show ?thesis by simp
next
  case unknown
  then show ?thesis by simp
qed

lemma parse_ref_known:
  assumes "RE_RANGE s \<noteq> None \<or> RE_LT s \<noteq> None \<or> RE_GT s \<noteq> None"
  shows "mode (parse_ref s) \<noteq> Unknown"
proof (cases s rule: parse_ref_cases)
  case unknown
  from assms have "RE_RANGE (strip s) \<noteq> None \<or> RE_LT (strip s) \<noteq> None \<or> RE_GT (strip s) \<noteq> None"
    using RE_RANGE_strip[of s] RE_LT_strip[of s] RE_GT_strip[of s] by blast
  then have "search RE_RANGE (strip s) \<noteq> None \<or> search RE_LT (strip s) \<noteq> None \<or>
      search RE_GT (strip s) \<noteq> None"
    using search_head[of RE_RANGE "strip s"] search_head[of RE_LT "strip s"]
      search_head[of RE_GT "strip s"] by auto
  with unknown show ?thesis by simp
qed simp_all

text \<open>
  C2 (as stated, refuted). \<open>parse_ref("100 - 70")\<close> is a \<open>Range\<close> whose \<open>low\<close> is 100 and
  whose \<open>high\<close> is 70: the bounds are stored in the order of the text, never compared.
\<close>

theorem parse_ref_unordered_counterexample:
  "parse_ref (ascii ''100 - 70'') =
     \<lparr>mode = Range, low = Some (Fin 100), high = Some (Fin 70), rtext = ascii ''100 - 70''\<rparr> \<and>
   \<not> fle (Fin 100) (Fin 70)"
  by (simp add: ev fl_ev cong: cg)

text \<open>
  C2 (amended). Every \<open>RefRange\<close> returned by \<open>parse_ref\<close> has the bounds its mode requires:
  both for \<open>Range\<close>, \<open>high\<close> for \<open>LessThan\<close>, \<open>low\<close> for \<open>GreaterThan\<close>, none for
  \<open>Unknown\<close>. Nothing is claimed about the order of \<open>low\<close> and \<open>high\<close>.
\<close>

theorem parse_ref_mode_invariant:
  "(mode (parse_ref s) = Range \<longrightarrow> low (parse_ref s) \<noteq> None \<and> high (parse_ref s) \<noteq> None) \<and>
   (mode (parse_ref s) = LessThan \<longrightarrow> high (parse_ref s) \<noteq> None) \<and>
   (mode (parse_ref s) = GreaterThan \<longrightarrow> low (parse_ref s) \<noteq> None) \<and>
   (mode (parse_ref s) = Unknown \<longrightarrow> low (parse_ref s) = None \<and> high (parse_ref s) = None)"
  by (rule parse_ref_bounds)

theorem parse_ref_mode_invariant_witness:
  "mode (parse_ref (ascii ''70 - 100'')) = Range \<and>
   low (parse_ref (ascii ''70 - 100'')) \<noteq> None \<and> high (parse_ref (ascii ''70 - 100'')) \<noteq> None"
proof -
  have "mode (parse_ref (ascii ''70 - 100'')) = Range"
    by (simp add: ev cong: cg)
  with parse_ref_mode_invariant[of "ascii ''70 - 100''"] show ?thesis by blast
qed

text \<open>
  C9 (as stated, refuted). In \<open>" n/a"\<close> none of the three patterns matches, and the stored
  text is \<open>"n/a"\<close>, not the input: \<open>parse_ref\<close> strips the text before anything else.
\<close>

theorem parse_ref_unknown_text_counterexample:
  "search RE_RANGE (ascii '' n/a'') = None \<and> search RE_LT (ascii '' n/a'') = None \<and>
   search RE_GT (ascii '' n/a'') = None \<and>
   parse_ref (ascii '' n/a'') = \<lparr>mode = Unknown, low = None, high = None, rtext = ascii ''n/a''\<rparr> \<and>
   rtext (parse_ref (ascii '' n/a'')) \<noteq> ascii '' n/a''"
  by (simp add: ev cong: cg)

text \<open>
  C9 (amended). \<open>parse_ref\<close> is a total function (every exception of \<open>float\<close> is caught in
  \<open>_to_float\<close>), and for every input string in which none of the three patterns matches
  it returns mode \<open>Unknown\<close> with no bounds and with the stripped input as its text.
\<close>

theorem parse_ref_unknown:
  assumes "search RE_RANGE s = None" and "search RE_LT s = None" and "search RE_GT s = None"
  shows "parse_ref s = \<lparr>mode = Unknown, low = None, high = None, rtext = strip s\<rparr>"
proof -
  have "search RE_RANGE (strip s) = None"
    using assms(1) by (rule search_strip_None) (rule RE_RANGE_append_spaces)
  moreover have "search RE_LT (strip s) = None"
    using assms(2) by (rule search_strip_None) (rule RE_LT_append_spaces)
  moreover have "search RE_GT (strip s) = None"
    using assms(3) by (rule search_strip_None) (rule RE_GT_append_spaces)
  ultimately show ?thesis by (simp add: parse_ref_def)
qed

theorem parse_ref_unknown_witness:
  "search RE_RANGE (ascii ''negatif '') = None \<and> search RE_LT (ascii ''negatif '') = None \<and>
   search RE_GT (ascii ''negatif '') = None \<and>
   parse_ref (ascii ''negatif '') = \<lparr>mode = Unknown, low = None, high = None, rtext = ascii ''negatif''\<rparr>"
proof -
  have n: "search RE_RANGE (ascii ''negatif '') = None" "search RE_LT (ascii ''negatif '') = None"
    "search RE_GT (ascii ''negatif '') = None"
    by (simp_all add: ev cong: cg)
  have "strip (ascii ''negatif '') = ascii ''negatif''" by (simp add: ev)
  with parse_ref_unknown[OF n] n show ?thesis by simp
qed

section \<open>Rows of a report\<close>

lemma find_val_idx_sound:
  "find_val_idx ts = Some i \<Longrightarrow> i < length ts \<and> RE_NUM_fullmatch (ts ! i)"
proof (induction ts arbitrary: i)
  case Nil
  then show ?case by simp
next
  case (Cons t ts)
  show ?case
  proof (cases "find_val_idx ts")
    case None
    with Cons.prems have "RE_NUM_fullmatch t" "i = 0" by (auto split: if_splits)
    then show ?thesis by simp
  next
    case (Some j)
    with Cons.prems have "i = Suc j" by simp
    with Cons.IH[OF Some] show ?thesis by simp
  qed
qed

lemma classify_value_known:
  assumes "mode r = Range \<and> low r \<noteq> None \<and> high r \<noteq> None \<or>
           mode r = LessThan \<and> high r \<noteq> None \<or> mode r = GreaterThan \<and> low r \<noteq> None"
  shows "classify_value (Some v) r ratio \<noteq> StatusUnknown"
  using assms by (auto simp: classify_value_def Let_def split: option.splits if_splits)

lemma extract_row_parts:
  assumes "extract_row_from_line line = Some r"
  shows "\<exists>raw start tok. ref_match raw = Some start \<and> RE_NUM_fullmatch tok \<and>
     result_value r = to_float tok \<and> ref r = parse_ref (strip (drop start raw)) \<and>
     status r = classify_value (to_float tok) (parse_ref (strip (drop start raw))) (lit (5 / 100))"
proof -
  define raw where "raw = sub_runs isspace (strip line)"
  from assms obtain start where st: "ref_match raw = Some start"
    unfolding extract_row_from_line_def Let_def raw_def[symmetric]
    by (cases "ref_match raw") (auto split: if_splits)
  define tokens where "tokens = split_space (strip (take start raw))"
  from assms st obtain i where i: "find_val_idx tokens = Some i"
    unfolding extract_row_from_line_def Let_def raw_def[symmetric] tokens_def
    by (cases "find_val_idx (split_space (strip (take start raw)))") (auto split: if_splits)
  from assms st i[unfolded tokens_def] have "result_value r = to_float (tokens ! i)"
      "ref r = parse_ref (strip (drop start raw))"
      "status r = classify_value (to_float (tokens ! i)) (parse_ref (strip (drop start raw))) (lit (5 / 100))"
    unfolding extract_row_from_line_def Let_def raw_def[symmetric] tokens_def
    by (auto split: if_splits)
  with st find_val_idx_sound[OF i] show ?thesis by blast
qed

lemma extract_row_props:
  assumes "extract_row_from_line line = Some r"
  shows "result_value r \<noteq> None \<and>
     (mode (ref r) = Range \<and> low (ref r) \<noteq> None \<and> high (ref r) \<noteq> None \<or>
      mode (ref r) = LessThan \<and> high (ref r) \<noteq> None \<or>
      mode (ref r) = GreaterThan \<and> low (ref r) \<noteq> None) \<and>
     status r \<noteq> StatusUnknown"
proof -
  from extract_row_parts[OF assms] obtain raw start tok where
    st: "ref_match raw = Some start" and tok: "RE_NUM_fullmatch tok"
    and v: "result_value r = to_float tok" and rf: "ref r = parse_ref (strip (drop start raw))"
    and s: "status r = classify_value (to_float tok) (parse_ref (strip (drop start raw))) (lit (5 / 100))"
    by blast
  define x where "x = drop start raw"
  from RE_NUM_fullmatch_to_float[OF tok] obtain val where val: "to_float tok = Some val" by blast
  from ref_match_sound[OF st] have "RE_RANGE x \<noteq> None \<or> RE_LT x \<noteq> None \<or> RE_GT x \<noteq> None"
    by (simp add: x_def)
  then have "RE_RANGE (strip x) \<noteq> None \<or> RE_LT (strip x) \<noteq> None \<or> RE_GT (strip x) \<noteq> None"
    using RE_RANGE_strip[of x] RE_LT_strip[of x] RE_GT_strip[of x] by blast
  then have k: "mode (parse_ref (strip x)) \<noteq> Unknown" by (rule parse_ref_known)
  have b: "mode (parse_ref (strip x)) = Range \<and> low (parse_ref (strip x)) \<noteq> None \<and>
        high (parse_ref (strip x)) \<noteq> None \<or>
      mode (parse_ref (strip x)) = LessThan \<and> high (parse_ref (strip x)) \<noteq> None \<or>
      mode (parse_ref (strip x)) = GreaterThan \<and> low (parse_ref (strip x)) \<noteq> None"
    using parse_ref_bounds[of "strip x"] k by (cases "mode (parse_ref (strip x))") simp_all
  from classify_value_known[OF b] have "classify_value (Some val) (parse_ref (strip x)) (lit (5 / 100)) \<noteq> StatusUnknown" .
  with b v rf s val show ?thesis by (simp add: x_def)
qed

text \<open>
  C6. The line \<open>"Glukoz 148 mg/dL 70 - 100"\<close> yields the row Glukoz, 148.0, mg/dL,
  Range(70, 100), High.
\<close>

theorem extract_row_glukoz:
  "extract_row_from_line (ascii ''Glukoz 148 mg/dL 70 - 100'') =
     Some \<lparr>test_name = ascii ''Glukoz'', result_text = ascii ''148'', result_value = Some (Fin 148),
           unit = ascii ''mg/dL'', ref_text = ascii ''70 - 100'',
           ref = \<lparr>mode = Range, low = Some (Fin 70), high = Some (Fin 100), rtext = ascii ''70 - 100''\<rparr>,
           status = High\<rparr>"
  by (simp add: ev fl_ev cong: cg)

text \<open>
  C1 (the code at the failing input). In \<open>"HDL 28 mg/dL >40 35 - 80"\<close> the range pattern
  matches at position 17 and the \<open>>\<close> pattern at position 13. The loop visits the patterns
  in the order range, \<open><\<close>, \<open>>\<close>, so the match assigned last is the one at position 13,
  not the rightmost one: the reference fragment is \<open>">40 35 - 80"\<close> and the left part stops
  before \<open>>40\<close>.
\<close>

theorem extract_row_not_rightmost:
  "map fst (finditer RE_RANGE (ascii ''HDL 28 mg/dL >40 35 - 80'')) = [17] \<and>
   map fst (finditer RE_LT (ascii ''HDL 28 mg/dL >40 35 - 80'')) = [] \<and>
   map fst (finditer RE_GT (ascii ''HDL 28 mg/dL >40 35 - 80'')) = [13] \<and>
   ref_match (ascii ''HDL 28 mg/dL >40 35 - 80'') = Some 13 \<and>
   extract_row_from_line (ascii ''HDL 28 mg/dL >40 35 - 80'') =
     Some \<lparr>test_name = ascii ''HDL'', result_text = ascii ''28'', result_value = Some (Fin 28),
           unit = ascii ''mg/dL'', ref_text = ascii ''>40 35 - 80'',
           ref = \<lparr>mode = Range, low = Some (Fin 35), high = Some (Fin 80), rtext = ascii ''>40 35 - 80''\<rparr>,
           status = Low\<rparr>"
proof -
  have "map fst (finditer RE_RANGE (ascii ''HDL 28 mg/dL >40 35 - 80'')) = [17]"
    by (simp add: ev cong: cg)
  moreover have "map fst (finditer RE_LT (ascii ''HDL 28 mg/dL >40 35 - 80'')) = []"
    by (simp add: ev cong: cg)
  moreover have "map fst (finditer RE_GT (ascii ''HDL 28 mg/dL >40 35 - 80'')) = [13]"
    by (simp add: ev cong: cg)
  moreover have "ref_match (ascii ''HDL 28 mg/dL >40 35 - 80'') = Some 13"
    by (simp add: ev cong: cg)
  moreover have "extract_row_from_line (ascii ''HDL 28 mg/dL >40 35 - 80'') =
     Some \<lparr>test_name = ascii ''HDL'', result_text = ascii ''28'', result_value = Some (Fin 28),
           unit = ascii ''mg/dL'', ref_text = ascii ''>40 35 - 80'',
           ref = \<lparr>mode = Range, low = Some (Fin 35), high = Some (Fin 80), rtext = ascii ''>40 35 - 80''\<rparr>,
           status = Low\<rparr>"
    by (simp add: ev fl_ev cong: cg)
  ultimately show ?thesis by blast
qed

text \<open>
  C10. Every row returned by \<open>parse_enabiz_text\<close> has a numeric value, a reference range of
  mode \<open>Range\<close>, \<open>LessThan\<close> or \<open>GreaterThan\<close> with the bounds that mode requires, and a
  status other than unknown.
\<close>

theorem parse_enabiz_text_rows:
  "\<forall>r \<in> set (parse_enabiz_text text).
     result_value r \<noteq> None \<and>
     (mode (ref r) = Range \<and> low (ref r) \<noteq> None \<and> high (ref r) \<noteq> None \<or>
      mode (ref r) = LessThan \<and> high (ref r) \<noteq> None \<or>
      mode (ref r) = GreaterThan \<and> low (ref r) \<noteq> None) \<and>
     (status r = Low \<or> status r = High \<or> status r = Borderline \<or> status r = Normal)"
proof
  fix r
  assume "r \<in> set (parse_enabiz_text text)"
  then obtain line where "extract_row_from_line line = Some r"
    by (auto simp: parse_enabiz_text_def List.map_filter_def)
  from extract_row_props[OF this] show "result_value r \<noteq> None \<and>
     (mode (ref r) = Range \<and> low (ref r) \<noteq> None \<and> high (ref r) \<noteq> None \<or>
      mode (ref r) = LessThan \<and> high (ref r) \<noteq> None \<or>
      mode (ref r) = GreaterThan \<and> low (ref r) \<noteq> None) \<and>
     (status r = Low \<or> status r = High \<or> status r = Borderline \<or> status r = Normal)"
    by (cases "status r") simp_all
qed

theorem parse_enabiz_text_rows_witness:
  "parse_enabiz_text (ascii ''Tahlil Sonucu'' @ 10 # ascii ''HDL 28 mg/dL >40'') =
     [\<lparr>test_name = ascii ''HDL'', result_text = ascii ''28'', result_value = Some (Fin 28),
       unit = ascii ''mg/dL'', ref_text = ascii ''>40'',
       ref = \<lparr>mode = GreaterThan, low = Some (Fin 40), high = None, rtext = ascii ''>40''\<rparr>,
       status = Low\<rparr>] \<and>
   result_value (hd (parse_enabiz_text (ascii ''Tahlil Sonucu'' @ 10 # ascii ''HDL 28 mg/dL >40''))) \<noteq> None \<and>
   mode (ref (hd (parse_enabiz_text (ascii ''Tahlil Sonucu'' @ 10 # ascii ''HDL 28 mg/dL >40'')))) = GreaterThan \<and>
   low (ref (hd (parse_enabiz_text (ascii ''Tahlil Sonucu'' @ 10 # ascii ''HDL 28 mg/dL >40'')))) \<noteq> None \<and>
   status (hd (parse_enabiz_text (ascii ''Tahlil Sonucu'' @ 10 # ascii ''HDL 28 mg/dL >40''))) = Low"
proof -
  have l: "splitlines (ascii ''Tahlil Sonucu'' @ 10 # ascii ''HDL 28 mg/dL >40'') =
      [ascii ''Tahlil Sonucu'', ascii ''HDL 28 mg/dL >40'']"
    by (simp add: splitlines_def ascii_def islinebreak_def)
  have r1: "extract_row_from_line (ascii ''Tahlil Sonucu'') = None"
    by (simp add: ev cong: cg)
  have r2: "extract_row_from_line (ascii ''HDL 28 mg/dL >40'') =
     Some \<lparr>test_name = ascii ''HDL'', result_text = ascii ''28'', result_value = Some (Fin 28),
       unit = ascii ''mg/dL'', ref_text = ascii ''>40'',
       ref = \<lparr>mode = GreaterThan, low = Some (Fin 40), high = None, rtext = ascii ''>40''\<rparr>,
       status = Low\<rparr>"
    by (simp add: ev fl_ev cong: cg)
  have e: "parse_enabiz_text (ascii ''Tahlil Sonucu'' @ 10 # ascii ''HDL 28 mg/dL >40'') =
     [\<lparr>test_name = ascii ''HDL'', result_text = ascii ''28'', result_value = Some (Fin 28),
       unit = ascii ''mg/dL'', ref_text = ascii ''>40'',
       ref = \<lparr>mode = GreaterThan, low = Some (Fin 40), high = None, rtext = ascii ''>40''\<rparr>,
       status = Low\<rparr>]"
    unfolding parse_enabiz_text_def l by (simp add: List.map_filter_simps r1 r2)
  from parse_enabiz_text_rows[of "ascii ''Tahlil Sonucu'' @ 10 # ascii ''HDL 28 mg/dL >40''"]
  show ?thesis unfolding e by simp
qed

section \<open>Classification of a value against a two-sided range\<close>

lemma margin_cases:
  assumes "lo < hi" "0 < r"
  shows "margin lo hi (Fin r) = PInf \<or> (\<exists>m. margin lo hi (Fin r) = Fin m \<and> 0 \<le> m)"
proof -
  have s0: "to_double (hi - lo) = PInf \<or> (\<exists>s. to_double (hi - lo) = Fin s \<and> 0 \<le> s)"
    using to_double_ge[OF is_double_0, of "hi - lo"] assms(1) by simp
  have "\<exists>e. lit (1 / 1000000) = Fin e \<and> 0 < e"
    unfolding lit_eps by (intro exI conjI, rule refl) simp
  then obtain e :: real where e: "lit (1 / 1000000) = Fin e" "0 < e" by blast
  have span: "fmax (fsub (Fin hi) (Fin lo)) (lit (1 / 1000000)) = PInf \<or>
      (\<exists>s. fmax (fsub (Fin hi) (Fin lo)) (lit (1 / 1000000)) = Fin s \<and> 0 < s)"
    using s0 e(2) unfolding e(1) by (auto simp: fsub_def fmax_def fgt_def)
  then show ?thesis
  proof
    assume "fmax (fsub (Fin hi) (Fin lo)) (lit (1 / 1000000)) = PInf"
    then show ?thesis using assms(2) by (simp add: margin_def fmul_def)
  next
    assume "\<exists>s. fmax (fsub (Fin hi) (Fin lo)) (lit (1 / 1000000)) = Fin s \<and> 0 < s"
    then obtain s where s: "fmax (fsub (Fin hi) (Fin lo)) (lit (1 / 1000000)) = Fin s" "0 < s"
      by blast
    have "0 \<le> s * r" using s(2) assms(2) by simp
    from to_double_ge[OF is_double_0 this] show ?thesis
      by (simp add: margin_def s(1) fmul_def)
  qed
qed

lemma classify_value_Range:
  "classify_value (Some (Fin v)) \<lparr>mode = Range, low = Some (Fin lo), high = Some (Fin hi), rtext = t\<rparr> ratio =
     (if v < lo then Low
      else if hi < v then High
      else if fle (Fin v) (fadd (Fin lo) (margin lo hi ratio)) \<or>
              fle (fsub (Fin hi) (margin lo hi ratio)) (Fin v)
           then Borderline else Normal)"
  by (simp add: classify_value_def Let_def margin_def fgt_def fge_def)





end
